theory Spec2Isabelle
  imports Main "HOL-Library.Multiset"
begin

section \<open>Data model of \<^verbatim>\<open>web/hooks/use-bets.ts\<close>\<close>

text \<open>
  Modelled from the spec: the declaration of \<^verbatim>\<open>Bet\<close> (module \<^verbatim>\<open>common/bet\<close>) is not
  among the sources. The record has the attributes that section 3 of the design document
  lists, which are the fields the hooks read. JavaScript numbers that hold timestamps are
  \<open>int\<close> (milliseconds), strings are \<open>string\<close>, and a flag that the code only tests for
  truthiness is a \<open>bool\<close>, \<open>False\<close> standing for both \<^verbatim>\<open>false\<close> and \<^verbatim>\<open>undefined\<close>. The
  field \<^verbatim>\<open>id\<close> is called \<open>bet_id\<close>.
\<close>

record Bet =
  bet_id :: string
  contractId :: string
  userId :: string
  createdTime :: int
  isChallenge :: bool
  isAnte :: bool
  isRedemption :: bool
  isFilled :: bool
  isCancelled :: bool

text \<open>
  Modelled from the spec: the declaration of \<^verbatim>\<open>LimitBet\<close> (module \<^verbatim>\<open>common/bet\<close>), a bet
  with an optional expiration timestamp; \<open>None\<close> is \<^verbatim>\<open>undefined\<close>.
\<close>

record LimitBet = Bet +
  expiresAt :: "int option"

text \<open>The values \<^verbatim>\<open>'asc'\<close> and \<^verbatim>\<open>'desc'\<close> of an \<^verbatim>\<open>order\<close> option.\<close>

datatype order = Asc | Desc

text \<open>
  Modelled from the spec: the declaration of \<^verbatim>\<open>BetFilter\<close> (module \<^verbatim>\<open>common/bet\<close>), with
  the options of section 3. An optional string or number is an \<open>option\<close> with \<open>None\<close> for
  \<^verbatim>\<open>undefined\<close>; the boolean options are only tested for truthiness. The fields carry the
  prefix \<open>opt_\<close>: the source reads them as \<^verbatim>\<open>options.contractId\<close> and so on.
\<close>

record BetFilter =
  opt_contractId :: "string option"
  opt_userId :: "string option"
  opt_afterTime :: "int option"
  opt_beforeTime :: "int option"
  opt_filterChallenges :: bool
  opt_filterAntes :: bool
  opt_filterRedemptions :: bool
  opt_isOpenLimitOrder :: bool
  opt_order :: "order option"
  opt_limit :: "nat option"

text \<open>The filter object \<^verbatim>\<open>{}\<close>: every option absent.\<close>

definition no_options :: BetFilter where
  "no_options =
     \<lparr>opt_contractId = None, opt_userId = None, opt_afterTime = None,
      opt_beforeTime = None, opt_filterChallenges = False, opt_filterAntes = False,
      opt_filterRedemptions = False, opt_isOpenLimitOrder = False,
      opt_order = None, opt_limit = None\<rparr>"

subsection \<open>JavaScript truthiness of optional values\<close>

text \<open>
  \<^verbatim>\<open>options.contractId && ...\<close> tests the truthiness of the option: \<^verbatim>\<open>undefined\<close> and the
  empty string are falsy, as are \<^verbatim>\<open>undefined\<close> and the number \<^verbatim>\<open>0\<close>.
\<close>

fun truthy_str :: "string option \<Rightarrow> bool" where
  "truthy_str None = False"
| "truthy_str (Some s) = (s \<noteq> [])"

fun truthy_num :: "int option \<Rightarrow> bool" where
  "truthy_num None = False"
| "truthy_num (Some n) = (n \<noteq> 0)"

section \<open>The filter evaluator\<close>

text \<open>
  \<^verbatim>\<open>betShouldBeFiltered(bet, options?)\<close>, lines 14-36. The JavaScript function returns the
  value of the \<^verbatim>\<open>||\<close> chain; the model returns its truthiness. \<open>None\<close> is the absent
  \<^verbatim>\<open>options\<close> argument. Inside a guarded disjunct the option is truthy, hence present,
  and \<open>the\<close> reads its value.
\<close>

fun betShouldBeFiltered :: "'a Bet_scheme \<Rightarrow> BetFilter option \<Rightarrow> bool" where
  "betShouldBeFiltered bet None = False"
| "betShouldBeFiltered bet (Some options) =
     ((truthy_str (opt_contractId options) \<and> contractId bet \<noteq> the (opt_contractId options)) \<or>
      (truthy_str (opt_userId options) \<and> userId bet \<noteq> the (opt_userId options)) \<or>
      (truthy_num (opt_afterTime options) \<and> createdTime bet \<le> the (opt_afterTime options)) \<or>
      (truthy_num (opt_beforeTime options) \<and> createdTime bet \<ge> the (opt_beforeTime options)) \<or>
      (opt_filterChallenges options \<and> isChallenge bet) \<or>
      (opt_filterAntes options \<and> isAnte bet) \<or>
      (opt_filterRedemptions options \<and> isRedemption bet) \<or>
      (opt_isOpenLimitOrder options \<and> (isFilled bet \<or> isCancelled bet)))"

text \<open>
  The eight exclusion conditions in the words of the design document, section 4.1, each
  one "option set and ...", where an option is set when the filter object carries a value
  for it. This definition follows the document, not the code, and is compared with
  \<open>betShouldBeFiltered\<close> below.
\<close>

definition spec_excluded :: "'a Bet_scheme \<Rightarrow> BetFilter \<Rightarrow> bool" where
  "spec_excluded bet f =
     ((case opt_contractId f of None \<Rightarrow> False | Some c \<Rightarrow> contractId bet \<noteq> c) \<or>
      (case opt_userId f of None \<Rightarrow> False | Some u \<Rightarrow> userId bet \<noteq> u) \<or>
      (case opt_afterTime f of None \<Rightarrow> False | Some t \<Rightarrow> createdTime bet \<le> t) \<or>
      (case opt_beforeTime f of None \<Rightarrow> False | Some t \<Rightarrow> createdTime bet \<ge> t) \<or>
      (opt_filterChallenges f \<and> isChallenge bet) \<or>
      (opt_filterAntes f \<and> isAnte bet) \<or>
      (opt_filterRedemptions f \<and> isRedemption bet) \<or>
      (opt_isOpenLimitOrder f \<and> (isFilled bet \<or> isCancelled bet)))"

text \<open>
  The same eight conditions where an option counts as set only when its value is neither
  the empty string nor the number zero.
\<close>

definition spec_excluded_nonempty :: "'a Bet_scheme \<Rightarrow> BetFilter \<Rightarrow> bool" where
  "spec_excluded_nonempty bet f =
     ((case opt_contractId f of None \<Rightarrow> False | Some c \<Rightarrow> c \<noteq> [] \<and> contractId bet \<noteq> c) \<or>
      (case opt_userId f of None \<Rightarrow> False | Some u \<Rightarrow> u \<noteq> [] \<and> userId bet \<noteq> u) \<or>
      (case opt_afterTime f of None \<Rightarrow> False | Some t \<Rightarrow> t \<noteq> 0 \<and> createdTime bet \<le> t) \<or>
      (case opt_beforeTime f of None \<Rightarrow> False | Some t \<Rightarrow> t \<noteq> 0 \<and> createdTime bet \<ge> t) \<or>
      (opt_filterChallenges f \<and> isChallenge bet) \<or>
      (opt_filterAntes f \<and> isAnte bet) \<or>
      (opt_filterRedemptions f \<and> isRedemption bet) \<or>
      (opt_isOpenLimitOrder f \<and> (isFilled bet \<or> isCancelled bet)))"

section \<open>The lodash helpers used by the hooks\<close>

text \<open>
  \<^verbatim>\<open>uniqBy(array, iteratee)\<close> walks the array once with a list of the keys seen so far and
  keeps an element when its key is new: the first occurrence of every key survives, in
  the order of first occurrence.
\<close>

fun baseUniq :: "('a \<Rightarrow> 'k) \<Rightarrow> 'k list \<Rightarrow> 'a list \<Rightarrow> 'a list" where
  "baseUniq f seen [] = []"
| "baseUniq f seen (x # xs) =
     (if f x \<in> set seen then baseUniq f seen xs else x # baseUniq f (f x # seen) xs)"

definition uniqBy :: "('a \<Rightarrow> 'k) \<Rightarrow> 'a list \<Rightarrow> 'a list" where
  "uniqBy f xs = baseUniq f [] xs"

text \<open>
  \<^verbatim>\<open>sortBy(collection, iteratee)\<close> is a stable sort in ascending order of the key, and
  \<^verbatim>\<open>orderBy(collection, iteratee, 'desc')\<close> a stable sort in descending order (elements with
  equal keys keep their relative order in both). \<open>sort_key\<close> is the stable insertion sort
  of the list library.
\<close>

definition sortBy :: "('a \<Rightarrow> int) \<Rightarrow> 'a list \<Rightarrow> 'a list" where
  "sortBy f xs = sort_key f xs"

fun orderBy :: "('a \<Rightarrow> int) \<Rightarrow> order \<Rightarrow> 'a list \<Rightarrow> 'a list" where
  "orderBy f Asc xs = sort_key f xs"
| "orderBy f Desc xs = sort_key (\<lambda>x. - f x) xs"

text \<open>
  \<^verbatim>\<open>maxBy(array, iteratee)\<close>: the first element with the greatest key, \<^verbatim>\<open>undefined\<close> for
  an empty array.
\<close>

fun maxBy :: "('a \<Rightarrow> int) \<Rightarrow> 'a list \<Rightarrow> 'a option" where
  "maxBy f [] = None"
| "maxBy f (x # xs) = Some (foldl (\<lambda>m y. if f y > f m then y else m) x xs)"

section \<open>The merge steps of the subscription hooks\<close>

text \<open>
  Each hook keeps its collection in a state cell and replaces it by the value of
  \<^verbatim>\<open>addBets\<close>; the model passes the current state in and returns the new one. The hook's
  parameters (\<^verbatim>\<open>afterTime\<close>, \<^verbatim>\<open>includeRedemptions\<close>) and the reading of the clock
  (\<^verbatim>\<open>Date.now()\<close>) are arguments. Where the caller gives no \<^verbatim>\<open>afterTime\<close> the hook takes
  the reading of the clock, and \<^verbatim>\<open>includeRedemptions\<close> defaults to \<^verbatim>\<open>false\<close> (lines 97 and
  140).
\<close>

text \<open>\<^verbatim>\<open>useSubscribeNewBets\<close>, \<^verbatim>\<open>addBets\<close>, lines 104-115.\<close>

definition newBets_addBets ::
  "int \<Rightarrow> bool \<Rightarrow> 'a Bet_scheme list \<Rightarrow> 'a Bet_scheme list \<Rightarrow> 'a Bet_scheme list" where
  "newBets_addBets afterTime includeRedemptions bets currentBets =
     (let uniqueBets = sortBy createdTime (uniqBy bet_id (currentBets @ bets))
      in filter (\<lambda>b. createdTime b > afterTime \<and> (includeRedemptions \<or> \<not> isRedemption b))
           uniqueBets)"

text \<open>\<^verbatim>\<open>useSubscribeGlobalBets\<close>, \<^verbatim>\<open>addBets\<close>, lines 147-158.\<close>

definition globalBets_addBets ::
  "int \<Rightarrow> bool \<Rightarrow> 'a Bet_scheme list \<Rightarrow> 'a Bet_scheme list \<Rightarrow> 'a Bet_scheme list" where
  "globalBets_addBets afterTime includeRedemptions bets currentBets =
     (let uniqueBets = sortBy createdTime (uniqBy bet_id (currentBets @ bets))
      in filter (\<lambda>b. createdTime b > afterTime \<and> (includeRedemptions \<or> \<not> isRedemption b))
           uniqueBets)"

text \<open>
  \<^verbatim>\<open>useUnfilledBets\<close>, \<^verbatim>\<open>addBets\<close>, lines 190-202. The state is \<^verbatim>\<open>LimitBet[] | undefined\<close>
  and \<^verbatim>\<open>bets ?? []\<close> reads \<^verbatim>\<open>undefined\<close> as the empty collection. The incoming batch
  comes first in the concatenation. \<^verbatim>\<open>!bet.expiresAt\<close> holds for an absent expiry and for
  the number \<^verbatim>\<open>0\<close>. \<open>now\<close> is the value of \<^verbatim>\<open>Date.now()\<close> during the merge.
\<close>

definition unfilledBets_addBets ::
  "int \<Rightarrow> LimitBet list \<Rightarrow> LimitBet list option \<Rightarrow> LimitBet list" where
  "unfilledBets_addBets now newBets bets =
     filter (\<lambda>bet. \<not> isFilled bet \<and> \<not> isCancelled bet \<and>
                   (\<not> truthy_num (expiresAt bet) \<or> the (expiresAt bet) > now))
       (sortBy createdTime
          (uniqBy bet_id (newBets @ (case bets of None \<Rightarrow> [] | Some bs \<Rightarrow> bs))))"

section \<open>How batches reach the merge of \<^verbatim>\<open>useSubscribeNewBets\<close>\<close>

text \<open>
  Modelled from the spec: \<^verbatim>\<open>getBets\<close> (module \<^verbatim>\<open>common/supabase/bets\<close>) is not among the
  sources. By section 6 of the design document the snapshot query returns the bets of the
  store that match the filter, in the vocabulary of section 4.1 (equality on
  \<^verbatim>\<open>contractId\<close> and \<^verbatim>\<open>userId\<close>, ranges on the creation time, boolean exclusions), ordered
  and capped as asked. \<open>store\<close> is the content of the store when the query runs.
\<close>

definition getBets :: "'a Bet_scheme list \<Rightarrow> BetFilter \<Rightarrow> 'a Bet_scheme list" where
  "getBets store options =
     (let matching = filter (\<lambda>b. \<not> spec_excluded b options) store;
          ordered = (case opt_order options of
                       None \<Rightarrow> matching
                     | Some ord \<Rightarrow> orderBy createdTime ord matching)
      in case opt_limit options of None \<Rightarrow> ordered | Some n \<Rightarrow> take n ordered)"

text \<open>
  Modelled from the spec: \<^verbatim>\<open>useApiSubscription\<close> (module \<^verbatim>\<open>./use-api-subscription\<close>) is
  not among the sources. By sections 4.4 and 6 the callback \<^verbatim>\<open>onBroadcast\<close> receives the
  messages published on the subscribed topics and no others: the result is the message
  handed to the callback, if any.
\<close>

definition useApiSubscription :: "string list \<Rightarrow> string \<Rightarrow> 'm \<Rightarrow> 'm option" where
  "useApiSubscription topics topic msg = (if topic \<in> set topics then Some msg else None)"

text \<open>
  The topic \<^verbatim>\<open>`contract/${contractId}/new-bet`\<close> of line 126; \<open>contract\<close> is the hook's
  argument \<^verbatim>\<open>contractId\<close>.
\<close>

definition newBetTopic :: "string \<Rightarrow> string" where
  "newBetTopic contract = ''contract/'' @ contract @ ''/new-bet''"

text \<open>
  What can happen to the hook while it is mounted: the snapshot query of lines 117-123
  resolves against the store, or fails (then \<^verbatim>\<open>addBets\<close> is not called), or a message with
  a batch of bets is published on some topic (lines 125-130).
\<close>

datatype 'a arrival =
  Snapshot "'a Bet_scheme list"
| SnapshotFailed
| Broadcast string "'a Bet_scheme list"

text \<open>The bets that an arrival carries, whether or not they reach the hook.\<close>

fun arrival_bets :: "'a arrival \<Rightarrow> 'a Bet_scheme list" where
  "arrival_bets (Snapshot store) = store"
| "arrival_bets SnapshotFailed = []"
| "arrival_bets (Broadcast topic bets) = bets"

text \<open>
  The batch that \<^verbatim>\<open>useSubscribeNewBets(contractId, {afterTime, includeRedemptions})\<close> hands
  to \<^verbatim>\<open>addBets\<close> on an arrival, \<open>None\<close> when \<^verbatim>\<open>addBets\<close> is not called: the result of
  \<^verbatim>\<open>getBets(db, {contractId, afterTime, filterRedemptions: !includeRedemptions})\<close>, or the
  bets of a message on the hook's topic.
\<close>

fun newBets_delivery ::
  "string \<Rightarrow> int \<Rightarrow> bool \<Rightarrow> 'a arrival \<Rightarrow> 'a Bet_scheme list option" where
  "newBets_delivery contract afterTime includeRedemptions (Snapshot store) =
     Some (getBets store
       (no_options\<lparr>opt_contractId := Some contract, opt_afterTime := Some afterTime,
                   opt_filterRedemptions := \<not> includeRedemptions\<rparr>))"
| "newBets_delivery contract afterTime includeRedemptions SnapshotFailed = None"
| "newBets_delivery contract afterTime includeRedemptions (Broadcast topic bets) =
     useApiSubscription [newBetTopic contract] topic bets"

text \<open>
  The collection that \<^verbatim>\<open>useSubscribeNewBets\<close> holds after a sequence of arrivals, starting
  from its initial state \<^verbatim>\<open>[]\<close>: every delivered batch is merged into the state left by
  the arrival before.
\<close>

definition useSubscribeNewBets ::
  "string \<Rightarrow> int \<Rightarrow> bool \<Rightarrow> 'a arrival list \<Rightarrow> 'a Bet_scheme list" where
  "useSubscribeNewBets contract afterTime includeRedemptions arrivals =
     foldl (\<lambda>newBets ev.
              case newBets_delivery contract afterTime includeRedemptions ev of
                None \<Rightarrow> newBets
              | Some bets \<Rightarrow> newBets_addBets afterTime includeRedemptions bets newBets)
       [] arrivals"

section \<open>The polling hook\<close>

text \<open>
  \<^verbatim>\<open>useRealtimeBetsPolling\<close>, lines 51-91. A query of the builder is the record of its
  clauses: the \<^verbatim>\<open>order\<close> clause, the \<^verbatim>\<open>gt('created_time', _)\<close> clause and the filter handed
  to \<^verbatim>\<open>applyBetsFilter\<close>. Timestamps are milliseconds throughout (\<^verbatim>\<open>toISOString\<close> only
  changes the notation). A row has at least the column \<^verbatim>\<open>created_time\<close>.
  \<^verbatim>\<open>usePersistentSupabasePolling\<close> and \<^verbatim>\<open>convertBet\<close> are imported by the source; they
  are parameters of the model.
\<close>

record Row =
  created_time :: int

record Query =
  q_ascending :: "bool option"
  q_gt_created_time :: "int option"
  q_filter :: BetFilter

definition allRowsQ :: "BetFilter \<Rightarrow> Query" where
  "allRowsQ options =
     \<lparr>q_ascending = Some (opt_order options = Some Asc), q_gt_created_time = None,
      q_filter = options\<rparr>"

definition newRowsOnlyQ :: "BetFilter \<Rightarrow> 'a Row_scheme list option \<Rightarrow> Query" where
  "newRowsOnlyQ options rows =
     (let afterTime = opt_afterTime options;
          rest = options\<lparr>opt_afterTime := None\<rparr>;
          latestCreatedTime =
            (case rows of None \<Rightarrow> None
             | Some rs \<Rightarrow> map_option created_time (maxBy created_time rs))
      in \<lparr>q_ascending = None,
          q_gt_created_time =
            Some (case latestCreatedTime of
                    Some t \<Rightarrow> t
                  | None \<Rightarrow> (case afterTime of Some a \<Rightarrow> a | None \<Rightarrow> 0)),
          q_filter = rest\<rparr>)"

definition useRealtimeBetsPolling ::
  "(Query \<Rightarrow> ('a Row_scheme list option \<Rightarrow> Query) \<Rightarrow> 'a Row_scheme list option) \<Rightarrow>
   ('a Row_scheme \<Rightarrow> Bet) \<Rightarrow> BetFilter \<Rightarrow> Bet list option" where
  "useRealtimeBetsPolling usePersistentSupabasePolling convertBet options =
     (case usePersistentSupabasePolling (allRowsQ options) (newRowsOnlyQ options) of
        None \<Rightarrow> None
      | Some results \<Rightarrow> Some (orderBy createdTime Desc (map convertBet results)))"

section \<open>Concrete inputs\<close>

text \<open>A bet with every flag off, and a limit order built on it.\<close>

definition mkBet :: "string \<Rightarrow> string \<Rightarrow> int \<Rightarrow> Bet" where
  "mkBet i c t =
     \<lparr>bet_id = i, contractId = c, userId = [], createdTime = t, isChallenge = False,
      isAnte = False, isRedemption = False, isFilled = False, isCancelled = False\<rparr>"

definition mkLimitBet :: "string \<Rightarrow> int \<Rightarrow> bool \<Rightarrow> int option \<Rightarrow> LimitBet" where
  "mkLimitBet i t filled e =
     \<lparr>bet_id = i, contractId = [], userId = [], createdTime = t, isChallenge = False,
      isAnte = False, isRedemption = False, isFilled = filled, isCancelled = False,
      expiresAt = e\<rparr>"

section \<open>Properties of the lodash helpers\<close>

lemma baseUniq_cong_seen: "set s = set s' \<Longrightarrow> baseUniq f s xs = baseUniq f s' xs"
proof (induction xs arbitrary: s s')
  case Nil
  show ?case by simp
next
  case (Cons x xs)
  have "baseUniq f s xs = baseUniq f s' xs"
    using Cons.prems by (rule Cons.IH)
  moreover have "baseUniq f (f x # s) xs = baseUniq f (f x # s') xs"
    using Cons.prems by (intro Cons.IH) simp
  ultimately show ?case using Cons.prems by simp
qed

lemma baseUniq_filter_seen:
  "baseUniq f (s1 @ s2) xs = filter (\<lambda>x. f x \<notin> set s1) (baseUniq f s2 xs)"
proof (induction xs arbitrary: s2)
  case Nil
  show ?case by simp
next
  case (Cons x xs)
  show ?case
  proof (cases "f x \<in> set s2")
    case True
    then show ?thesis using Cons.IH [of s2] by simp
  next
    case notin2: False
    have ih: "baseUniq f (s1 @ f x # s2) xs = filter (\<lambda>x. f x \<notin> set s1) (baseUniq f (f x # s2) xs)"
      by (rule Cons.IH)
    show ?thesis
    proof (cases "f x \<in> set s1")
      case True
      have "baseUniq f (s1 @ s2) xs = baseUniq f (s1 @ f x # s2) xs"
        using True by (intro baseUniq_cong_seen) auto
      then show ?thesis using True notin2 ih by simp
    next
      case False
      have "baseUniq f (f x # s1 @ s2) xs = baseUniq f (s1 @ f x # s2) xs"
        by (intro baseUniq_cong_seen) auto
      then show ?thesis using False notin2 ih by simp
    qed
  qed
qed

lemma baseUniq_append:
  "baseUniq f s (xs @ ys) = baseUniq f s xs @ baseUniq f (map f xs @ s) ys"
proof (induction xs arbitrary: s)
  case Nil
  show ?case by simp
next
  case (Cons x xs)
  show ?case
  proof (cases "f x \<in> set s")
    case True
    have "baseUniq f (map f xs @ s) ys = baseUniq f (f x # map f xs @ s) ys"
      using True by (intro baseUniq_cong_seen) auto
    then show ?thesis using True Cons.IH [of s] by simp
  next
    case False
    have "baseUniq f (map f xs @ f x # s) ys = baseUniq f (f x # map f xs @ s) ys"
      by (intro baseUniq_cong_seen) auto
    then show ?thesis using False Cons.IH [of "f x # s"] by simp
  qed
qed

lemma uniqBy_append:
  "uniqBy f (xs @ ys) = uniqBy f xs @ filter (\<lambda>y. f y \<notin> f ` set xs) (uniqBy f ys)"
  using baseUniq_append [of f "[]" xs ys] baseUniq_filter_seen [of f "map f xs" "[]" ys]
  by (simp add: uniqBy_def)

lemma baseUniq_subset: "set (baseUniq f s xs) \<subseteq> set xs"
  by (induction xs arbitrary: s) auto

lemma baseUniq_keys: "f ` set (baseUniq f s xs) = f ` set xs - set s"
  by (induction xs arbitrary: s) auto

lemma baseUniq_distinct: "distinct (map f (baseUniq f s xs))"
proof (induction xs arbitrary: s)
  case Nil
  show ?case by simp
next
  case (Cons x xs)
  have "f x \<notin> f ` set (baseUniq f (f x # s) xs)"
    by (simp add: baseUniq_keys)
  then show ?case using Cons.IH by auto
qed

lemma uniqBy_distinct: "distinct (map f (uniqBy f xs))"
  by (simp add: uniqBy_def baseUniq_distinct)

lemma uniqBy_subset: "set (uniqBy f xs) \<subseteq> set xs"
  by (simp add: uniqBy_def baseUniq_subset)

lemma uniqBy_keys: "f ` set (uniqBy f xs) = f ` set xs"
  by (simp add: uniqBy_def baseUniq_keys)

lemma baseUniq_id: "distinct (map f xs) \<Longrightarrow> f ` set xs \<inter> set s = {} \<Longrightarrow> baseUniq f s xs = xs"
  by (induction xs arbitrary: s) auto

lemma uniqBy_id: "distinct (map f xs) \<Longrightarrow> uniqBy f xs = xs"
  by (simp add: uniqBy_def baseUniq_id)

lemma baseUniq_by_key:
  "filter (\<lambda>x. f x = k) (baseUniq f s xs) =
     (if k \<in> set s then [] else case find (\<lambda>x. f x = k) xs of None \<Rightarrow> [] | Some y \<Rightarrow> [y])"
proof (induction xs arbitrary: s)
  case Nil
  show ?case by simp
next
  case (Cons x xs)
  show ?case
  proof (cases "f x \<in> set s")
    case True
    then show ?thesis using Cons.IH [of s] by auto
  next
    case False
    then show ?thesis using Cons.IH [of "f x # s"] by auto
  qed
qed

lemma uniqBy_by_key:
  "filter (\<lambda>x. f x = k) (uniqBy f xs) = (case find (\<lambda>x. f x = k) xs of None \<Rightarrow> [] | Some y \<Rightarrow> [y])"
  by (simp add: uniqBy_def baseUniq_by_key)

lemma sortBy_filter: "filter P (sortBy f xs) = sortBy f (filter P xs)"
  by (simp add: sortBy_def filter_sort)

lemma sortBy_sorted: "sorted (map f (sortBy f xs))"
  by (simp add: sortBy_def)

lemma sortBy_set: "set (sortBy f xs) = set xs"
  by (simp add: sortBy_def)

lemma sortBy_distinct: "distinct (map g (sortBy f xs)) = distinct (map g xs)"
proof -
  have "mset (map g (sortBy f xs)) = mset (map g xs)" by (simp add: sortBy_def)
  then show ?thesis by (metis mset_eq_imp_distinct_iff)
qed

lemma sortBy_sorted_id: "sorted (map f xs) \<Longrightarrow> sortBy f xs = xs"
  by (simp add: sortBy_def sort_key_id_if_sorted)

lemma sortBy_append_sortBy: "sortBy f (xs @ sortBy f ys) = sortBy f (xs @ ys)"
  unfolding sortBy_def
proof (rule properties_for_sort_key [symmetric])
  show "mset (sort_key f (xs @ sort_key f ys)) = mset (xs @ ys)" by simp
  show "sorted (map f (sort_key f (xs @ sort_key f ys)))" by simp
  fix k assume "k \<in> set (sort_key f (xs @ sort_key f ys))"
  have flip: "(\<lambda>x. f k = f x) = (\<lambda>x. f x = f k)" by auto
  show "filter (\<lambda>x. f k = f x) (sort_key f (xs @ sort_key f ys)) = filter (\<lambda>x. f k = f x) (xs @ ys)"
    unfolding flip by (simp add: sort_key_stable)
qed

lemma filter_filter_swap: "filter P (filter Q xs) = filter Q (filter P xs)"
  by (induction xs) auto

lemma merge_by_key:
  "filter (\<lambda>x. f x = k) (filter P (sortBy g (uniqBy f xs))) =
     (case find (\<lambda>y. f y = k) xs of None \<Rightarrow> [] | Some y \<Rightarrow> if P y then [y] else [])"
proof -
  have "filter (\<lambda>x. f x = k) (filter P (sortBy g (uniqBy f xs))) =
        filter P (filter (\<lambda>x. f x = k) (sortBy g (uniqBy f xs)))"
    by (rule filter_filter_swap)
  also have "\<dots> = filter P (sortBy g (filter (\<lambda>x. f x = k) (uniqBy f xs)))"
    by (simp only: sortBy_filter)
  also have "\<dots> = filter P (sortBy g (case find (\<lambda>y. f y = k) xs of None \<Rightarrow> [] | Some y \<Rightarrow> [y]))"
    by (simp only: uniqBy_by_key)
  also have "\<dots> = (case find (\<lambda>y. f y = k) xs of None \<Rightarrow> [] | Some y \<Rightarrow> if P y then [y] else [])"
    by (simp add: sortBy_def split: option.split)
  finally show ?thesis .
qed

lemma unfilledBets_by_key:
  "filter (\<lambda>x. bet_id x = i) (unfilledBets_addBets now newBets limitBets) =
     (case find (\<lambda>y. bet_id y = i) (newBets @ (case limitBets of None \<Rightarrow> [] | Some bs \<Rightarrow> bs)) of
        None \<Rightarrow> []
      | Some y \<Rightarrow>
          if \<not> isFilled y \<and> \<not> isCancelled y \<and>
             (\<not> truthy_num (expiresAt y) \<or> the (expiresAt y) > now)
          then [y] else [])"
  unfolding unfilledBets_addBets_def by (rule merge_by_key)

lemma merge_distinct: "distinct (map f (filter P (sortBy g (uniqBy f xs))))"
  by (simp add: distinct_map_filter sortBy_distinct uniqBy_distinct)

lemma merge_sorted: "sorted (map g (filter P (sortBy g (uniqBy f xs))))"
  by (simp add: sorted_filter sortBy_sorted)

section \<open>Properties of the merge pipeline\<close>

lemma sorted_desc_key: "sorted (map (\<lambda>x. - f x) xs) = sorted (rev (map (f :: 'a \<Rightarrow> int) xs))"
  by (simp add: sorted_wrt_map sorted_wrt_rev rev_map [symmetric] del: rev_map)

lemma foldl_max_fold:
  "f (foldl (\<lambda>m y. if f y > f m then y else m) x xs) = fold max (map f xs) (f x :: int)"
proof (induction xs arbitrary: x)
  case Nil
  show ?case by simp
next
  case (Cons y ys)
  have "f (if f y > f x then y else x) = max (f y) (f x)" by simp
  then show ?case using Cons.IH [of "if f y > f x then y else x"] by simp
qed

lemma foldl_max_key:
  "f (foldl (\<lambda>m y. if f y > f m then y else m) x xs) = (Max (f ` set (x # xs)) :: int)"
proof -
  have "Max (set (f x # map f xs)) = fold max (map f xs) (f x)"
    by (rule Max.set_eq_fold)
  then show ?thesis by (simp add: foldl_max_fold)
qed

lemma maxBy_key: "xs \<noteq> [] \<Longrightarrow> map_option f (maxBy f xs) = Some (Max (f ` set xs))"
  by (cases xs) (simp_all add: foldl_max_key del: set_simps)

lemma uniqBy_key_unique:
  "x \<in> set (uniqBy f xs) \<Longrightarrow> y \<in> set (uniqBy f xs) \<Longrightarrow> f x = f y \<Longrightarrow> x = y"
  using uniqBy_distinct [of f xs] by (meson distinct_map inj_onD)

lemma merge_current_first_idem:
  assumes H: "\<And>y x. y \<in> set c \<Longrightarrow> x \<in> set b \<Longrightarrow> f y = f x \<Longrightarrow> P x \<Longrightarrow> P y"
  shows "filter P (sortBy g (uniqBy f (filter P (sortBy g (uniqBy f (c @ b))) @ b))) =
         filter P (sortBy g (uniqBy f (c @ b)))"
proof -
  define r where "r = filter P (sortBy g (uniqBy f (c @ b)))"
  let ?E = "filter (\<lambda>y. f y \<notin> f ` set r) (uniqBy f b)"
  have r_set: "set r = {x \<in> set (uniqBy f (c @ b)). P x}"
    by (auto simp: r_def sortBy_set)
  have r_dist: "distinct (map f r)" unfolding r_def by (rule merge_distinct)
  have r_sorted: "sorted (map g r)" unfolding r_def by (rule merge_sorted)
  have r_P: "filter P r = r" by (simp add: r_def)
  have "\<not> P e" if e: "e \<in> set (uniqBy f b)" and new: "f e \<notin> f ` set r" for e
  proof
    assume Pe: "P e"
    have eb: "e \<in> set b" using e uniqBy_subset by fastforce
    have "f e \<in> f ` set (uniqBy f (c @ b))" using eb by (simp add: uniqBy_keys)
    then obtain y where y: "y \<in> set (uniqBy f (c @ b))" and fy: "f y = f e" by auto
    have "P y"
    proof (cases "y \<in> set (uniqBy f c)")
      case True
      then have "y \<in> set c" using uniqBy_subset by fastforce
      then show ?thesis using H eb fy Pe by blast
    next
      case False
      then have "y \<in> set (uniqBy f b)" using y by (auto simp: uniqBy_append)
      then have "y = e" using e fy by (rule uniqBy_key_unique)
      then show ?thesis using Pe by simp
    qed
    then have "y \<in> set r" using y r_set by simp
    then have "f y \<in> f ` set r" by (rule imageI)
    then show False using new fy by simp
  qed
  then have E_none: "filter P ?E = []" by (auto simp: filter_empty_conv)
  have "uniqBy f (r @ b) = r @ ?E"
    by (simp add: uniqBy_append uniqBy_id r_dist)
  then have "filter P (sortBy g (uniqBy f (r @ b))) = sortBy g (filter P (r @ ?E))"
    by (simp only: sortBy_filter)
  also have "\<dots> = sortBy g r" using E_none r_P by (simp only: filter_append append_Nil2)
  also have "\<dots> = r" using r_sorted by (rule sortBy_sorted_id)
  finally show ?thesis unfolding r_def .
qed

lemma merge_incoming_first_idem:
  "filter L (sortBy g (uniqBy f (b @ filter L (sortBy g (uniqBy f (b @ c)))))) =
   filter L (sortBy g (uniqBy f (b @ c)))"
proof -
  define r where "r = filter L (sortBy g (uniqBy f (b @ c)))"
  let ?K = "\<lambda>y. f y \<notin> f ` set b"
  let ?U = "uniqBy f b"
  let ?C = "filter ?K (uniqBy f c)"
  have r_dist: "distinct (map f r)" unfolding r_def by (rule merge_distinct)
  have split: "uniqBy f (b @ c) = ?U @ ?C" by (rule uniqBy_append)
  have KU: "filter ?K ?U = []"
    using uniqBy_subset [of f b] by (auto simp: filter_empty_conv)
  have KC: "filter ?K ?C = ?C" by simp
  have "filter ?K r = filter L (filter ?K (sortBy g (?U @ ?C)))"
    unfolding r_def split by (rule filter_filter_swap)
  also have "\<dots> = filter L (sortBy g (filter ?K (?U @ ?C)))"
    by (simp only: sortBy_filter)
  also have "\<dots> = filter L (sortBy g ?C)"
    using KU KC by (simp only: filter_append append_Nil)
  finally have Kr: "filter ?K r = sortBy g (filter L ?C)"
    by (simp only: sortBy_filter)
  have "uniqBy f (b @ r) = ?U @ filter ?K r"
    by (simp add: uniqBy_append uniqBy_id r_dist)
  then have "filter L (sortBy g (uniqBy f (b @ r))) =
             sortBy g (filter L (?U @ sortBy g (filter L ?C)))"
    by (simp only: Kr sortBy_filter)
  also have "\<dots> = sortBy g (filter L ?U @ sortBy g (filter L ?C))"
    by (simp add: sortBy_filter [symmetric])
  also have "\<dots> = sortBy g (filter L ?U @ filter L ?C)"
    by (rule sortBy_append_sortBy)
  also have "\<dots> = filter L (sortBy g (?U @ ?C))"
    by (simp only: sortBy_filter filter_append)
  also have "\<dots> = r" by (simp only: r_def split)
  finally show ?thesis unfolding r_def .
qed

lemma uniqBy_set_inj: "inj_on f (set xs) \<Longrightarrow> set (uniqBy f xs) = set xs"
proof
  show "set (uniqBy f xs) \<subseteq> set xs" by (rule uniqBy_subset)
next
  assume inj: "inj_on f (set xs)"
  show "set xs \<subseteq> set (uniqBy f xs)"
  proof
    fix x assume x: "x \<in> set xs"
    then have "f x \<in> f ` set (uniqBy f xs)" by (simp add: uniqBy_keys)
    then obtain y where y: "y \<in> set (uniqBy f xs)" and fy: "f y = f x" by auto
    have "y \<in> set xs" using y uniqBy_subset by fastforce
    then have "y = x" using inj x fy by (meson inj_onD)
    then show "x \<in> set (uniqBy f xs)" using y by simp
  qed
qed

lemma newBets_addBets_set:
  assumes "inj_on bet_id (set currentBets \<union> set bets)"
  shows "set (newBets_addBets afterTime includeRedemptions bets currentBets) =
         {b \<in> set currentBets \<union> set bets.
            createdTime b > afterTime \<and> (includeRedemptions \<or> \<not> isRedemption b)}"
proof -
  have "set (uniqBy bet_id (currentBets @ bets)) = set currentBets \<union> set bets"
    using assms by (simp add: uniqBy_set_inj)
  then show ?thesis by (auto simp: newBets_addBets_def sortBy_set)
qed

lemma getBets_set:
  "opt_order options = None \<Longrightarrow> opt_limit options = None \<Longrightarrow>
   set (getBets store options) = {b \<in> set store. \<not> spec_excluded b options}"
  by (simp add: getBets_def)

lemma hook_fold_set:
  assumes inj: "inj_on bet_id S"
    and deliv: "\<forall>ev \<in> set arrivals. \<forall>bs. d ev = Some bs \<longrightarrow> set bs \<subseteq> S"
    and c: "set c \<subseteq> S"
    and keep: "\<forall>x \<in> set c. createdTime x > afterTime \<and> (includeRedemptions \<or> \<not> isRedemption x)"
  shows "set (foldl (\<lambda>cur ev. case d ev of None \<Rightarrow> cur
                      | Some bs \<Rightarrow> newBets_addBets afterTime includeRedemptions bs cur)
            c arrivals) =
         {b \<in> set c \<union> (\<Union>ev \<in> set arrivals. case d ev of None \<Rightarrow> {} | Some bs \<Rightarrow> set bs).
            createdTime b > afterTime \<and> (includeRedemptions \<or> \<not> isRedemption b)}"
  using deliv c keep
proof (induction arrivals arbitrary: c)
  case Nil
  then show ?case by auto
next
  case (Cons ev arrivals)
  let ?P = "\<lambda>b. createdTime b > afterTime \<and> (includeRedemptions \<or> \<not> isRedemption b)"
  let ?step = "\<lambda>cur ev. case d ev of None \<Rightarrow> cur
                      | Some bs \<Rightarrow> newBets_addBets afterTime includeRedemptions bs cur"
  let ?rest = "\<Union>ev \<in> set arrivals. case d ev of None \<Rightarrow> {} | Some bs \<Rightarrow> set bs"
  have rest_deliv: "\<forall>ev \<in> set arrivals. \<forall>bs. d ev = Some bs \<longrightarrow> set bs \<subseteq> S"
    using Cons.prems(1) by simp
  show ?case
  proof (cases "d ev")
    case None
    have "set (foldl ?step c arrivals) = {b \<in> set c \<union> ?rest. ?P b}"
      using rest_deliv Cons.prems(2,3) by (rule Cons.IH)
    then show ?thesis using None by simp
  next
    case (Some bs)
    let ?c' = "newBets_addBets afterTime includeRedemptions bs c"
    have bs: "set bs \<subseteq> S" using Cons.prems(1) Some by simp
    then have sub: "set c \<union> set bs \<subseteq> S" using Cons.prems(2) by simp
    have "inj_on bet_id (set c \<union> set bs)" using inj sub by (rule inj_on_subset)
    then have c'_set: "set ?c' = {b \<in> set c \<union> set bs. ?P b}"
      by (rule newBets_addBets_set)
    have c'_S: "set ?c' \<subseteq> S" using c'_set sub by blast
    have c'_keep: "\<forall>x \<in> set ?c'. ?P x" using c'_set by blast
    have "set (foldl ?step ?c' arrivals) = {b \<in> set ?c' \<union> ?rest. ?P b}"
      using rest_deliv c'_S c'_keep by (rule Cons.IH)
    also have "\<dots> = {b \<in> (set c \<union> set bs) \<union> ?rest. ?P b}"
      unfolding c'_set by blast
    finally show ?thesis using Some by (simp add: Un_assoc)
  qed
qed

lemma hook_fold_sorted_distinct:
  assumes "sorted (map createdTime c)" and "distinct (map bet_id c)"
  shows "sorted (map createdTime
           (foldl (\<lambda>cur ev. case d ev of None \<Rightarrow> cur
                      | Some bs \<Rightarrow> newBets_addBets afterTime includeRedemptions bs cur)
              c arrivals)) \<and>
         distinct (map bet_id
           (foldl (\<lambda>cur ev. case d ev of None \<Rightarrow> cur
                      | Some bs \<Rightarrow> newBets_addBets afterTime includeRedemptions bs cur)
              c arrivals))"
  using assms
proof (induction arrivals arbitrary: c)
  case Nil
  then show ?case by simp
next
  case (Cons ev arrivals)
  show ?case
  proof (cases "d ev")
    case None
    then show ?thesis using Cons.IH [OF Cons.prems] by simp
  next
    case (Some bs)
    have "sorted (map createdTime (newBets_addBets afterTime includeRedemptions bs c))"
      by (simp add: newBets_addBets_def merge_sorted)
    moreover have "distinct (map bet_id (newBets_addBets afterTime includeRedemptions bs c))"
      by (simp add: newBets_addBets_def merge_distinct)
    ultimately show ?thesis using Cons.IH Some by simp
  qed
qed

lemma sorted_pair_unique:
  assumes "set r = {x, y}" and "distinct (map f r)" and "sorted (map g r)" and "g x < (g y :: int)"
  shows "r = [x, y]"
proof -
  have xy: "x \<noteq> y" using assms(4) by auto
  have "distinct r" using assms(2) by (simp add: distinct_map)
  then have "length r = card (set r)" by (simp add: distinct_card)
  then have "length r = 2" using assms(1) xy by simp
  then obtain u v where r: "r = [u, v]"
    by (metis (no_types) One_nat_def Suc_1 length_0_conv length_Suc_conv)
  then have "{u, v} = {x, y}" and "g u \<le> g v" using assms(1,3) by auto
  then show ?thesis using r assms(4) by (auto simp: doubleton_eq_iff)
qed

lemma unfilledBets_empty_batch:
  assumes "distinct (map bet_id c)" "sorted (map createdTime c)"
  shows "unfilledBets_addBets now [] (Some c) =
      filter (\<lambda>bet. \<not> isFilled bet \<and> \<not> isCancelled bet \<and>
                   (\<not> truthy_num (expiresAt bet) \<or> the (expiresAt bet) > now)) c"
  using assms by (simp add: unfilledBets_addBets_def uniqBy_id sortBy_sorted_id)

section \<open>The filter evaluator against section 4.1\<close>

text \<open>
  Claim C1, as stated: for every bet and every filter, \<open>betShouldBeFiltered\<close> excludes the
  bet if and only if one of the eight exclusion conditions of section 4.1 holds. It fails
  for an option that is present with a falsy value: with \<^verbatim>\<open>{contractId: ""}\<close> the bet on
  contract \<^verbatim>\<open>M1\<close> differs from the option, so the first condition holds, and the evaluator
  does not exclude it.
\<close>

theorem betShouldBeFiltered_spec_counterexample:
  "\<not> (betShouldBeFiltered (mkBet ''b1'' ''M1'' 5) (Some (no_options\<lparr>opt_contractId := Some []\<rparr>))
        \<longleftrightarrow> spec_excluded (mkBet ''b1'' ''M1'' 5) (no_options\<lparr>opt_contractId := Some []\<rparr>))"
  by (simp add: spec_excluded_def mkBet_def no_options_def)

text \<open>
  Claim C1, amended: for every bet and every filter, \<open>betShouldBeFiltered\<close> excludes the bet
  if and only if one of the eight exclusion conditions holds, where \<^verbatim>\<open>contractId\<close>,
  \<^verbatim>\<open>userId\<close>, \<^verbatim>\<open>afterTime\<close> and \<^verbatim>\<open>beforeTime\<close> count as set only when their value is
  neither the empty string nor zero; and when the filter object is absent no bet is excluded.
  In particular every bet that the evaluator excludes meets one of the eight conditions as
  the document words them.
\<close>

theorem betShouldBeFiltered_iff:
  "betShouldBeFiltered bet None = False \<and>
   betShouldBeFiltered bet (Some f) = spec_excluded_nonempty bet f \<and>
   (betShouldBeFiltered bet (Some f) \<longrightarrow> spec_excluded bet f)"
proof -
  have code_iff: "betShouldBeFiltered bet (Some f) = spec_excluded_nonempty bet f"
    by (cases "opt_contractId f"; cases "opt_userId f"; cases "opt_afterTime f";
        cases "opt_beforeTime f") (simp_all add: spec_excluded_nonempty_def)
  have "spec_excluded_nonempty bet f \<Longrightarrow> spec_excluded bet f"
    unfolding spec_excluded_nonempty_def spec_excluded_def
    by (cases "opt_contractId f"; cases "opt_userId f"; cases "opt_afterTime f";
        cases "opt_beforeTime f") auto
  then show ?thesis using code_iff by simp
qed

theorem betShouldBeFiltered_iff_witness:
  "betShouldBeFiltered (mkBet ''b1'' ''M2'' 160)
     (Some (no_options\<lparr>opt_contractId := Some ''M1'', opt_afterTime := Some 100\<rparr>)) \<and>
   spec_excluded_nonempty (mkBet ''b1'' ''M2'' 160)
     (no_options\<lparr>opt_contractId := Some ''M1'', opt_afterTime := Some 100\<rparr>) \<and>
   spec_excluded (mkBet ''b1'' ''M2'' 160)
     (no_options\<lparr>opt_contractId := Some ''M1'', opt_afterTime := Some 100\<rparr>) \<and>
   \<not> betShouldBeFiltered (mkBet ''b1'' ''M2'' 160) None"
  using betShouldBeFiltered_iff [of "mkBet ''b1'' ''M2'' 160"
      "no_options\<lparr>opt_contractId := Some ''M1'', opt_afterTime := Some 100\<rparr>"]
  by (simp add: spec_excluded_nonempty_def mkBet_def no_options_def)

text \<open>
  Claim C10: the evaluator treats falsy option values as unset. With \<^verbatim>\<open>{afterTime: 0}\<close> no
  bet is excluded, whatever its creation time; and in any filter, \<^verbatim>\<open>afterTime: 0\<close>,
  \<^verbatim>\<open>contractId: ""\<close> and \<^verbatim>\<open>userId: ""\<close> give the same verdict as the filter without that
  option.
\<close>

theorem betShouldBeFiltered_falsy_unset:
  "betShouldBeFiltered bet (Some (no_options\<lparr>opt_afterTime := Some 0\<rparr>)) = False \<and>
   betShouldBeFiltered bet (Some (f\<lparr>opt_afterTime := Some 0\<rparr>)) =
     betShouldBeFiltered bet (Some (f\<lparr>opt_afterTime := None\<rparr>)) \<and>
   betShouldBeFiltered bet (Some (f\<lparr>opt_contractId := Some []\<rparr>)) =
     betShouldBeFiltered bet (Some (f\<lparr>opt_contractId := None\<rparr>)) \<and>
   betShouldBeFiltered bet (Some (f\<lparr>opt_userId := Some []\<rparr>)) =
     betShouldBeFiltered bet (Some (f\<lparr>opt_userId := None\<rparr>))"
  by (simp add: no_options_def)

theorem betShouldBeFiltered_falsy_unset_witness:
  "\<not> betShouldBeFiltered (mkBet ''b1'' ''M1'' (- 5)) (Some (no_options\<lparr>opt_afterTime := Some 0\<rparr>)) \<and>
   createdTime (mkBet ''b1'' ''M1'' (- 5)) \<le> 0"
  using betShouldBeFiltered_falsy_unset [of "mkBet ''b1'' ''M1'' (- 5)" no_options]
  by (simp add: mkBet_def)

section \<open>The merge steps\<close>

text \<open>
  Claim C2: on every merge path, an identity that occurs in the current collection and in
  the incoming batch with different flags ends up with the record of the incoming batch.
  \<^verbatim>\<open>useUnfilledBets\<close> does this, its merge puts the incoming batch first (line 193). The
  merges of \<^verbatim>\<open>useSubscribeNewBets\<close> and \<^verbatim>\<open>useSubscribeGlobalBets\<close> put the current
  collection first (lines 107 and 150) and do not: evaluated on the stored record of
  identity \<^verbatim>\<open>a\<close> and the incoming record of identity \<^verbatim>\<open>a\<close> with \<^verbatim>\<open>isFilled: true\<close>, they
  return the stored record, while the merge of \<^verbatim>\<open>useUnfilledBets\<close> returns the incoming
  one (here told apart by its expiry).
\<close>

theorem addBets_stale_record_kept:
  "newBets_addBets 0 False [(mkBet ''a'' ''M1'' 10)\<lparr>isFilled := True\<rparr>] [mkBet ''a'' ''M1'' 10]
     = [mkBet ''a'' ''M1'' 10] \<and>
   globalBets_addBets 0 False [(mkBet ''a'' ''M1'' 10)\<lparr>isFilled := True\<rparr>] [mkBet ''a'' ''M1'' 10]
     = [mkBet ''a'' ''M1'' 10] \<and>
   isFilled ((mkBet ''a'' ''M1'' 10)\<lparr>isFilled := True\<rparr>) \<and> \<not> isFilled (mkBet ''a'' ''M1'' 10) \<and>
   unfilledBets_addBets 1000 [mkLimitBet ''a'' 10 False (Some 5000)]
       (Some [mkLimitBet ''a'' 10 False None])
     = [mkLimitBet ''a'' 10 False (Some 5000)]"
  by (simp add: newBets_addBets_def globalBets_addBets_def unfilledBets_addBets_def
      uniqBy_def sortBy_def mkBet_def mkLimitBet_def)

theorem addBets_stale_record_kept_witness:
  "map isFilled
     (newBets_addBets 0 False [(mkBet ''a'' ''M1'' 10)\<lparr>isFilled := True\<rparr>] [mkBet ''a'' ''M1'' 10])
     = [False] \<and>
   map isFilled
     (globalBets_addBets 0 False [(mkBet ''a'' ''M1'' 10)\<lparr>isFilled := True\<rparr>] [mkBet ''a'' ''M1'' 10])
     = [False] \<and>
   map expiresAt
     (unfilledBets_addBets 1000 [mkLimitBet ''a'' 10 False (Some 5000)]
        (Some [mkLimitBet ''a'' 10 False None]))
     = [Some 5000]"
  using addBets_stale_record_kept by (simp add: mkBet_def mkLimitBet_def)

text \<open>
  Claim C3: in \<^verbatim>\<open>useUnfilledBets\<close>, starting from the empty collection, merging a batch
  with the record of identity \<^verbatim>\<open>a\<close> and then a batch with a record of identity \<^verbatim>\<open>a\<close> that
  is filled leaves a collection without identity \<^verbatim>\<open>a\<close>, whatever the two readings of the
  clock.
\<close>

theorem unfilledBets_filled_scenario:
  assumes "start = None \<or> start = Some []"
    and "bet_id b1 = ''a''" and "createdTime b1 = 10"
    and "bet_id b2 = ''a''" and "createdTime b2 = 10" and "isFilled b2"
  shows "''a'' \<notin> bet_id ` set (unfilledBets_addBets t2 [b2]
            (Some (unfilledBets_addBets t1 [b1] start)))"
proof -
  have "filter (\<lambda>x. bet_id x = ''a'') (unfilledBets_addBets t2 [b2]
            (Some (unfilledBets_addBets t1 [b1] start))) = []"
    using assms(4,6) by (simp add: unfilledBets_by_key)
  then show ?thesis by (auto simp: filter_empty_conv)
qed

theorem unfilledBets_filled_scenario_witness:
  "unfilledBets_addBets 1000 [mkLimitBet ''a'' 10 False None] None
     = [mkLimitBet ''a'' 10 False None] \<and>
   unfilledBets_addBets 2000 [mkLimitBet ''a'' 10 True None]
      (Some (unfilledBets_addBets 1000 [mkLimitBet ''a'' 10 False None] None)) = [] \<and>
   ''a'' \<notin> bet_id ` set (unfilledBets_addBets 2000 [mkLimitBet ''a'' 10 True None]
      (Some (unfilledBets_addBets 1000 [mkLimitBet ''a'' 10 False None] None)))"
  using unfilledBets_filled_scenario [of None "mkLimitBet ''a'' 10 False None"
      "mkLimitBet ''a'' 10 True None" 2000 1000]
  by (simp add: unfilledBets_addBets_def uniqBy_def sortBy_def mkLimitBet_def)

text \<open>
  Claim C4: the identities of the collection returned by each of the three merge steps
  are pairwise distinct, for every current collection and every incoming batch (the
  current collection need not even be free of duplicates).
\<close>

theorem addBets_distinct_ids:
  "distinct (map bet_id (newBets_addBets afterTime includeRedemptions bets currentBets)) \<and>
   distinct (map bet_id (globalBets_addBets afterTime includeRedemptions bets currentBets)) \<and>
   distinct (map bet_id (unfilledBets_addBets now newBets limitBets))"
  by (simp add: newBets_addBets_def globalBets_addBets_def unfilledBets_addBets_def
      merge_distinct)

theorem addBets_distinct_ids_witness:
  "distinct (map bet_id (newBets_addBets 0 False [mkBet ''a'' ''M1'' 10, mkBet ''b'' ''M1'' 5]
      [mkBet ''a'' ''M1'' 10])) \<and>
   newBets_addBets 0 False [mkBet ''a'' ''M1'' 10, mkBet ''b'' ''M1'' 5] [mkBet ''a'' ''M1'' 10]
     = [mkBet ''b'' ''M1'' 5, mkBet ''a'' ''M1'' 10]"
  using addBets_distinct_ids [of 0 False "[mkBet ''a'' ''M1'' 10, mkBet ''b'' ''M1'' 5]"
      "[mkBet ''a'' ''M1'' 10]"]
  by (simp add: newBets_addBets_def uniqBy_def sortBy_def mkBet_def)

text \<open>
  Claim C5: merging a batch twice in a row gives the same collection as merging it once,
  at fixed \<^verbatim>\<open>afterTime\<close>, \<^verbatim>\<open>includeRedemptions\<close> and reading of the clock, for every
  current collection and every batch of bets. Bets are as section 3 of the design
  document has them: an identity stands for one bet, whose creation time and
  classification never change, so records of the current collection and of the batch that
  share an identity agree on \<^verbatim>\<open>createdTime\<close> and \<^verbatim>\<open>isRedemption\<close> (the flags \<^verbatim>\<open>isFilled\<close> and
  \<^verbatim>\<open>isCancelled\<close> and the expiry may differ). \<^verbatim>\<open>useUnfilledBets\<close> needs no such agreement.
\<close>

theorem addBets_idempotent:
  assumes "\<forall>y \<in> set currentBets. \<forall>x \<in> set bets. bet_id y = bet_id x \<longrightarrow>
               createdTime y = createdTime x \<and> isRedemption y = isRedemption x"
  shows "newBets_addBets afterTime includeRedemptions bets
           (newBets_addBets afterTime includeRedemptions bets currentBets) =
         newBets_addBets afterTime includeRedemptions bets currentBets \<and>
         globalBets_addBets afterTime includeRedemptions bets
           (globalBets_addBets afterTime includeRedemptions bets currentBets) =
         globalBets_addBets afterTime includeRedemptions bets currentBets \<and>
         unfilledBets_addBets now newBets (Some (unfilledBets_addBets now newBets limitBets)) =
         unfilledBets_addBets now newBets limitBets"
proof -
  let ?P = "\<lambda>b. createdTime b > afterTime \<and> (includeRedemptions \<or> \<not> isRedemption b)"
  have H: "?P y" if "y \<in> set currentBets" "x \<in> set bets" "bet_id y = bet_id x" "?P x" for x y
    using assms that by metis
  have "filter ?P (sortBy createdTime (uniqBy bet_id
          (filter ?P (sortBy createdTime (uniqBy bet_id (currentBets @ bets))) @ bets))) =
        filter ?P (sortBy createdTime (uniqBy bet_id (currentBets @ bets)))"
    by (rule merge_current_first_idem) (rule H)
  moreover have "unfilledBets_addBets now newBets (Some (unfilledBets_addBets now newBets limitBets)) =
         unfilledBets_addBets now newBets limitBets"
    unfolding unfilledBets_addBets_def option.case by (rule merge_incoming_first_idem)
  ultimately show ?thesis
    by (simp add: newBets_addBets_def globalBets_addBets_def)
qed

theorem addBets_idempotent_witness:
  "newBets_addBets 100 False [mkBet ''b'' ''M1'' 150, (mkBet ''a'' ''M1'' 200)\<lparr>isFilled := True\<rparr>]
     (newBets_addBets 100 False [mkBet ''b'' ''M1'' 150, (mkBet ''a'' ''M1'' 200)\<lparr>isFilled := True\<rparr>]
        [mkBet ''a'' ''M1'' 200])
   = [mkBet ''b'' ''M1'' 150, mkBet ''a'' ''M1'' 200] \<and>
   newBets_addBets 100 False [mkBet ''b'' ''M1'' 150, (mkBet ''a'' ''M1'' 200)\<lparr>isFilled := True\<rparr>]
     [mkBet ''a'' ''M1'' 200]
   = [mkBet ''b'' ''M1'' 150, mkBet ''a'' ''M1'' 200]"
proof -
  have agree: "\<forall>y \<in> set [mkBet ''a'' ''M1'' 200].
         \<forall>x \<in> set [mkBet ''b'' ''M1'' 150, (mkBet ''a'' ''M1'' 200)\<lparr>isFilled := True\<rparr>].
           bet_id y = bet_id x \<longrightarrow> createdTime y = createdTime x \<and> isRedemption y = isRedemption x"
    by (simp add: mkBet_def)
  have once: "newBets_addBets 100 False
       [mkBet ''b'' ''M1'' 150, (mkBet ''a'' ''M1'' 200)\<lparr>isFilled := True\<rparr>] [mkBet ''a'' ''M1'' 200]
     = [mkBet ''b'' ''M1'' 150, mkBet ''a'' ''M1'' 200]"
    by (simp add: newBets_addBets_def uniqBy_def sortBy_def mkBet_def)
  show ?thesis
    using addBets_idempotent [OF agree, of 100 False 0 "[]" None] once by simp
qed

text \<open>
  Claim C6, as stated: every collection handed to the observer is sorted in the order the
  scope asks for, and \<^verbatim>\<open>useRealtimeBetsPolling\<close> with \<^verbatim>\<open>order: 'asc'\<close> returns its bets in
  ascending order of \<^verbatim>\<open>createdTime\<close>. The hook sorts its result with the constant
  \<^verbatim>\<open>'desc'\<close>: two rows created at 1 and 2 come back as 2, 1.
\<close>

theorem polling_order_counterexample:
  "useRealtimeBetsPolling (\<lambda>allRows newRows. Some [\<lparr>created_time = 1\<rparr>, \<lparr>created_time = 2\<rparr>])
     (\<lambda>row. mkBet ''b'' ''M1'' (created_time row)) (no_options\<lparr>opt_order := Some Asc\<rparr>)
     = Some [mkBet ''b'' ''M1'' 2, mkBet ''b'' ''M1'' 1] \<and>
   \<not> sorted (map createdTime [mkBet ''b'' ''M1'' 2, mkBet ''b'' ''M1'' 1])"
  by (simp add: useRealtimeBetsPolling_def mkBet_def)

text \<open>
  Claim C6, amended: the collections returned by the three merge steps are sorted in
  ascending order of \<^verbatim>\<open>createdTime\<close>, and the result of \<^verbatim>\<open>useRealtimeBetsPolling\<close> is
  sorted in descending order of \<^verbatim>\<open>createdTime\<close> whatever the \<^verbatim>\<open>order\<close> option says (the
  option only orders the initial query).
\<close>

theorem collections_sorted:
  "sorted (map createdTime (newBets_addBets afterTime includeRedemptions bets currentBets)) \<and>
   sorted (map createdTime (globalBets_addBets afterTime includeRedemptions bets currentBets)) \<and>
   sorted (map createdTime (unfilledBets_addBets now newBets limitBets)) \<and>
   (\<forall>out. useRealtimeBetsPolling poll convertBet options = Some out \<longrightarrow>
      sorted (rev (map createdTime out)))"
proof -
  have "sorted (rev (map createdTime out))"
    if "useRealtimeBetsPolling poll convertBet options = Some out" for out
  proof -
    from that obtain results where "out = orderBy createdTime Desc (map convertBet results)"
      by (auto simp: useRealtimeBetsPolling_def split: option.splits)
    then have "sorted (map (\<lambda>x. - createdTime x) out)" by simp
    then show ?thesis by (simp only: sorted_desc_key)
  qed
  then show ?thesis
    by (simp add: newBets_addBets_def globalBets_addBets_def unfilledBets_addBets_def
        merge_sorted)
qed

theorem collections_sorted_witness:
  "sorted (rev (map createdTime [mkBet ''b'' ''M1'' 2, mkBet ''b'' ''M1'' 1])) \<and>
   sorted (map createdTime (newBets_addBets 0 False [mkBet ''a'' ''M1'' 10, mkBet ''b'' ''M1'' 5] []))"
  using collections_sorted [of 0 False "[mkBet ''a'' ''M1'' 10, mkBet ''b'' ''M1'' 5]" "[]" 0 "[]" None
     "\<lambda>allRows newRows. Some [\<lparr>created_time = 1\<rparr>, \<lparr>created_time = 2\<rparr>]"
     "\<lambda>row. mkBet ''b'' ''M1'' (created_time row)" "no_options\<lparr>opt_order := Some Asc\<rparr>"]
  by (simp add: useRealtimeBetsPolling_def mkBet_def)

text \<open>
  Claim C7: for the scope \<^verbatim>\<open>{contractId: "M1", afterTime: 100}\<close>, that is for
  \<^verbatim>\<open>useSubscribeNewBets("M1", {afterTime: 100})\<close>, when the M1 bets created at 50, 150 and
  200 and the M2 bet created at 160 arrive, in any batches, in any order and any number of
  times, the collection reconciled from the empty one is exactly the M1 bet at 150
  followed by the M1 bet at 200. A bet arrives in the store that the snapshot query reads
  or in a message published on the topic of its own contract. The M2 bet never reaches
  the merge: the query asks for contract M1 and the hook listens to the topic of M1 only.
  The bet at 50 is left out by the query, and when a message on the topic of M1 brings it
  to the merge, by the merge's own test on \<^verbatim>\<open>afterTime\<close> (line 112). The two bets that stay
  are not redemptions.
\<close>

theorem newBets_scenario:
  assumes ids: "distinct [bet_id b50, bet_id b150, bet_id b200, bet_id m160]"
    and b50: "contractId b50 = ''M1''" "createdTime b50 = 50"
    and b150: "contractId b150 = ''M1''" "createdTime b150 = 150" "\<not> isRedemption b150"
    and b200: "contractId b200 = ''M1''" "createdTime b200 = 200" "\<not> isRedemption b200"
    and m160: "contractId m160 = ''M2''" "createdTime m160 = 160"
    and topics: "\<forall>ev \<in> set arrivals. \<forall>topic bets. ev = Broadcast topic bets \<longrightarrow>
                   (\<forall>b \<in> set bets. topic = newBetTopic (contractId b))"
    and arrive: "(\<Union>ev \<in> set arrivals. set (arrival_bets ev)) = {b50, b150, b200, m160}"
  shows "useSubscribeNewBets ''M1'' 100 includeRedemptions arrivals = [b150, b200]"
proof -
  define d :: "'a arrival \<Rightarrow> 'a Bet_scheme list option"
    where "d = newBets_delivery ''M1'' 100 includeRedemptions"
  define scope where "scope = no_options\<lparr>opt_contractId := Some ''M1'', opt_afterTime := Some 100,
                   opt_filterRedemptions := \<not> includeRedemptions\<rparr>"
  let ?S = "{b50, b150, b200}"
  have d_snapshot: "d (Snapshot store) = Some (getBets store scope)" for store
    by (simp add: d_def scope_def)
  have d_failed: "d SnapshotFailed = None" by (simp add: d_def)
  have d_broadcast: "d (Broadcast topic bets) =
      (if topic = newBetTopic ''M1'' then Some bets else None)" for topic bets
    by (simp add: d_def useApiSubscription_def)
  have query_set: "set (getBets store scope) = {b \<in> set store. \<not> spec_excluded b scope}" for store
    by (rule getBets_set) (simp_all add: scope_def no_options_def)
  have q50: "spec_excluded b50 scope" using b50 by (simp add: spec_excluded_def scope_def no_options_def)
  have q160: "spec_excluded m160 scope" using m160 by (simp add: spec_excluded_def scope_def no_options_def)
  have q150: "\<not> spec_excluded b150 scope" using b150 by (simp add: spec_excluded_def scope_def no_options_def)
  have q200: "\<not> spec_excluded b200 scope" using b200 by (simp add: spec_excluded_def scope_def no_options_def)
  have other_topic: "newBetTopic (contractId m160) \<noteq> newBetTopic ''M1''"
    using m160 by (simp add: newBetTopic_def)
  have carried: "set (arrival_bets ev) \<subseteq> {b50, b150, b200, m160}" if "ev \<in> set arrivals" for ev
    using that arrive by blast
  have delivered_sub: "set bs \<subseteq> ?S" if ev: "ev \<in> set arrivals" and bs: "d ev = Some bs" for ev bs
  proof (cases ev)
    case (Snapshot store)
    have "set store \<subseteq> {b50, b150, b200, m160}" using carried [OF ev] Snapshot by simp
    moreover have "bs = getBets store scope"
      using bs Snapshot by (simp add: d_snapshot)
    then have "set bs = {b \<in> set store. \<not> spec_excluded b scope}"
      by (simp only: query_set)
    ultimately show ?thesis using q160 q50 by blast
  next
    case SnapshotFailed
    then show ?thesis using bs by (simp add: d_failed)
  next
    case (Broadcast topic bets)
    have on_topic: "topic = newBetTopic ''M1''" and same: "bs = bets"
      using bs Broadcast by (simp_all add: d_broadcast split: if_splits)
    have "set bets \<subseteq> {b50, b150, b200, m160}" using carried [OF ev] Broadcast by simp
    moreover have "m160 \<notin> set bets"
    proof
      assume "m160 \<in> set bets"
      then have "topic = newBetTopic (contractId m160)" using topics ev Broadcast by blast
      then show False using on_topic other_topic by simp
    qed
    ultimately show ?thesis using same by blast
  qed
  have reaches: "\<exists>ev \<in> set arrivals. \<exists>bs. d ev = Some bs \<and> b \<in> set bs"
    if M1: "contractId b = ''M1''" and q: "\<not> spec_excluded b scope"
      and b: "b \<in> {b50, b150, b200, m160}" for b
  proof -
    from b arrive obtain ev where ev: "ev \<in> set arrivals" and in_ev: "b \<in> set (arrival_bets ev)"
      by blast
    show ?thesis
    proof (cases ev)
      case (Snapshot store)
      then have "b \<in> set (getBets store scope)" using in_ev q by (simp add: query_set)
      moreover have "d ev = Some (getBets store scope)" using Snapshot by (simp add: d_snapshot)
      ultimately show ?thesis using ev by blast
    next
      case SnapshotFailed
      then show ?thesis using in_ev by simp
    next
      case (Broadcast topic bets)
      then have "b \<in> set bets" using in_ev by simp
      moreover from this have "topic = newBetTopic ''M1''" using topics ev Broadcast M1 by force
      then have "d ev = Some bets" using Broadcast by (simp add: d_broadcast)
      ultimately show ?thesis using ev by blast
    qed
  qed
  let ?D = "\<Union>ev \<in> set arrivals. case d ev of None \<Rightarrow> {} | Some bs \<Rightarrow> set bs"
  have D_sub: "?D \<subseteq> ?S"
  proof
    fix b assume "b \<in> ?D"
    then obtain ev bs where "ev \<in> set arrivals" "d ev = Some bs" "b \<in> set bs"
      by (auto split: option.splits)
    then show "b \<in> ?S" using delivered_sub by blast
  qed
  have D_has: "b \<in> ?D" if "\<exists>ev \<in> set arrivals. \<exists>bs. d ev = Some bs \<and> b \<in> set bs" for b
    using that by force
  have D150: "b150 \<in> ?D" using reaches [of b150] b150 q150 by (intro D_has) simp
  have D200: "b200 \<in> ?D" using reaches [of b200] b200 q200 by (intro D_has) simp
  have neq: "bet_id b50 \<noteq> bet_id b150" "bet_id b50 \<noteq> bet_id b200" "bet_id b150 \<noteq> bet_id b200"
    using ids by simp_all
  then have inj: "inj_on bet_id ?S" by (simp add: inj_on_def)
  let ?P = "\<lambda>b. createdTime b > 100 \<and> (includeRedemptions \<or> \<not> isRedemption b)"
  have P50: "\<not> ?P b50" using b50 by simp
  have P150: "?P b150" using b150 by simp
  have P200: "?P b200" using b200 by simp
  have "set (useSubscribeNewBets ''M1'' 100 includeRedemptions arrivals) = {b \<in> set [] \<union> ?D. ?P b}"
    unfolding useSubscribeNewBets_def d_def [symmetric]
    using inj by (rule hook_fold_set) (use delivered_sub in simp_all)
  also have "\<dots> = {b150, b200}"
    using D_sub D150 D200 P50 P150 P200 by auto
  finally have set_eq: "set (useSubscribeNewBets ''M1'' 100 includeRedemptions arrivals) = {b150, b200}" .
  have "sorted (map createdTime (useSubscribeNewBets ''M1'' 100 includeRedemptions arrivals)) \<and>
        distinct (map bet_id (useSubscribeNewBets ''M1'' 100 includeRedemptions arrivals))"
    unfolding useSubscribeNewBets_def d_def [symmetric]
    by (rule hook_fold_sorted_distinct) simp_all
  moreover have "createdTime b150 < createdTime b200" using b150 b200 by simp
  ultimately show ?thesis
    using set_eq by (intro sorted_pair_unique [where f = bet_id and g = createdTime]) blast+
qed

theorem newBets_scenario_witness:
  "useSubscribeNewBets ''M1'' 100 False
     [Broadcast ''contract/M2/new-bet'' [mkBet ''b4'' ''M2'' 160],
      Broadcast ''contract/M1/new-bet'' [mkBet ''b3'' ''M1'' 200, mkBet ''b1'' ''M1'' 50],
      SnapshotFailed,
      Snapshot [mkBet ''b1'' ''M1'' 50, mkBet ''b4'' ''M2'' 160, mkBet ''b2'' ''M1'' 150,
                mkBet ''b3'' ''M1'' 200]]
     = [mkBet ''b2'' ''M1'' 150, mkBet ''b3'' ''M1'' 200] \<and>
   newBets_delivery ''M1'' 100 False
     (Broadcast ''contract/M1/new-bet'' [mkBet ''b3'' ''M1'' 200, mkBet ''b1'' ''M1'' 50])
     = Some [mkBet ''b3'' ''M1'' 200, mkBet ''b1'' ''M1'' 50] \<and>
   newBets_delivery ''M1'' 100 False (Broadcast ''contract/M2/new-bet'' [mkBet ''b4'' ''M2'' 160])
     = None"
proof -
  let ?arrivals = "[Broadcast ''contract/M2/new-bet'' [mkBet ''b4'' ''M2'' 160],
      Broadcast ''contract/M1/new-bet'' [mkBet ''b3'' ''M1'' 200, mkBet ''b1'' ''M1'' 50],
      SnapshotFailed,
      Snapshot [mkBet ''b1'' ''M1'' 50, mkBet ''b4'' ''M2'' 160, mkBet ''b2'' ''M1'' 150,
                mkBet ''b3'' ''M1'' 200]]"
  have topics: "\<forall>ev \<in> set ?arrivals. \<forall>topic bets. ev = Broadcast topic bets \<longrightarrow>
                   (\<forall>b \<in> set bets. topic = newBetTopic (contractId b))"
    by (simp add: newBetTopic_def mkBet_def)
  have arrive: "(\<Union>ev \<in> set ?arrivals. set (arrival_bets ev)) =
      {mkBet ''b1'' ''M1'' 50, mkBet ''b2'' ''M1'' 150, mkBet ''b3'' ''M1'' 200,
       mkBet ''b4'' ''M2'' 160}"
    by (simp add: insert_commute)
  have "useSubscribeNewBets ''M1'' 100 False ?arrivals =
        [mkBet ''b2'' ''M1'' 150, mkBet ''b3'' ''M1'' 200]"
    by (rule newBets_scenario [OF _ _ _ _ _ _ _ _ _ _ _ topics arrive]) (simp_all add: mkBet_def)
  then show ?thesis
    by (simp add: useApiSubscription_def newBetTopic_def)
qed

text \<open>
  Claim C8, as stated: after a merge at time \<open>t\<close>, also of an empty batch, the collection of
  \<^verbatim>\<open>useUnfilledBets\<close> holds no bet with an expiration timestamp that is not in the future
  of \<open>t\<close>. The test \<^verbatim>\<open>!bet.expiresAt\<close> reads the timestamp \<^verbatim>\<open>0\<close> as no expiry, so a bet
  that expires at 0 is still there at time 1000.
\<close>

theorem unfilledBets_expiry_counterexample:
  "mkLimitBet ''a'' 10 False (Some 0) \<in>
     set (unfilledBets_addBets 1000 [] (Some [mkLimitBet ''a'' 10 False (Some 0)])) \<and>
   expiresAt (mkLimitBet ''a'' 10 False (Some 0)) = Some 0 \<and> (0::int) \<le> 1000"
  by (simp add: unfilledBets_addBets_def uniqBy_def sortBy_def mkLimitBet_def)

text \<open>
  Claim C8, amended: after merging any batch, possibly empty, at time \<open>t\<close>, the collection
  of \<^verbatim>\<open>useUnfilledBets\<close> holds no bet that is filled, cancelled, or has a non-zero
  expiration timestamp that is not in the future of \<open>t\<close>; and merging the empty batch into
  a collection that an earlier merge produced keeps exactly its entries that are still
  open at \<open>t\<close>.
\<close>

theorem unfilledBets_liveness:
  "(\<forall>x \<in> set (unfilledBets_addBets t newBets limitBets).
      \<not> isFilled x \<and> \<not> isCancelled x \<and> (\<forall>e. expiresAt x = Some e \<longrightarrow> e = 0 \<or> t < e)) \<and>
   unfilledBets_addBets t [] (Some (unfilledBets_addBets t0 newBets limitBets)) =
     filter (\<lambda>bet. \<not> isFilled bet \<and> \<not> isCancelled bet \<and>
                   (\<not> truthy_num (expiresAt bet) \<or> the (expiresAt bet) > t))
       (unfilledBets_addBets t0 newBets limitBets)"
proof -
  have "distinct (map bet_id (unfilledBets_addBets t0 newBets limitBets))"
    unfolding unfilledBets_addBets_def by (rule merge_distinct)
  moreover have "sorted (map createdTime (unfilledBets_addBets t0 newBets limitBets))"
    unfolding unfilledBets_addBets_def by (rule merge_sorted)
  ultimately have "unfilledBets_addBets t [] (Some (unfilledBets_addBets t0 newBets limitBets)) =
     filter (\<lambda>bet. \<not> isFilled bet \<and> \<not> isCancelled bet \<and>
                   (\<not> truthy_num (expiresAt bet) \<or> the (expiresAt bet) > t))
       (unfilledBets_addBets t0 newBets limitBets)"
    by (rule unfilledBets_empty_batch)
  moreover have "\<forall>x \<in> set (unfilledBets_addBets t newBets limitBets).
      \<not> isFilled x \<and> \<not> isCancelled x \<and> (\<forall>e. expiresAt x = Some e \<longrightarrow> e = 0 \<or> t < e)"
    by (auto simp: unfilledBets_addBets_def)
  ultimately show ?thesis by (rule conjI [rotated])
qed

theorem unfilledBets_liveness_witness:
  "unfilledBets_addBets 1000 [mkLimitBet ''a'' 10 False (Some 1500), mkLimitBet ''b'' 20 False None] None
     = [mkLimitBet ''a'' 10 False (Some 1500), mkLimitBet ''b'' 20 False None] \<and>
   unfilledBets_addBets 2000 []
     (Some (unfilledBets_addBets 1000
        [mkLimitBet ''a'' 10 False (Some 1500), mkLimitBet ''b'' 20 False None] None))
     = [mkLimitBet ''b'' 20 False None]"
  using unfilledBets_liveness [of 2000
      "[mkLimitBet ''a'' 10 False (Some 1500), mkLimitBet ''b'' 20 False None]" None 1000]
  by (simp add: unfilledBets_addBets_def uniqBy_def sortBy_def mkLimitBet_def)

section \<open>The delta query of the polling hook\<close>

text \<open>
  Claim C9: the delta query bounds \<^verbatim>\<open>created_time\<close> strictly from below by the greatest
  creation time among the known rows; only when no rows are known (\<^verbatim>\<open>undefined\<close> or
  empty) the bound is the scope's \<^verbatim>\<open>afterTime\<close>, or 0 when that is unset; and the filter
  applied to the delta query is the scope's filter without \<^verbatim>\<open>afterTime\<close>.
\<close>

theorem newRowsOnlyQ_lower_bound:
  "(\<forall>rs. rows = Some rs \<and> rs \<noteq> [] \<longrightarrow>
      q_gt_created_time (newRowsOnlyQ options rows) = Some (Max (created_time ` set rs))) \<and>
   (rows = None \<or> rows = Some [] \<longrightarrow>
      q_gt_created_time (newRowsOnlyQ options rows) =
        Some (case opt_afterTime options of None \<Rightarrow> 0 | Some a \<Rightarrow> a)) \<and>
   q_filter (newRowsOnlyQ options rows) = options\<lparr>opt_afterTime := None\<rparr>"
  by (auto simp: newRowsOnlyQ_def maxBy_key split: option.splits)

theorem newRowsOnlyQ_lower_bound_witness:
  "q_gt_created_time (newRowsOnlyQ (no_options\<lparr>opt_afterTime := Some 3\<rparr>)
      (Some [\<lparr>created_time = 5\<rparr>, \<lparr>created_time = 9\<rparr>, \<lparr>created_time = 7\<rparr>])) = Some 9 \<and>
   opt_afterTime (q_filter (newRowsOnlyQ (no_options\<lparr>opt_afterTime := Some 3\<rparr>)
      (Some [\<lparr>created_time = 5\<rparr>, \<lparr>created_time = 9\<rparr>, \<lparr>created_time = 7\<rparr>]))) = None"
  using newRowsOnlyQ_lower_bound [of "Some [\<lparr>created_time = 5\<rparr>, \<lparr>created_time = 9\<rparr>, \<lparr>created_time = 7\<rparr>]"
      "no_options\<lparr>opt_afterTime := Some 3\<rparr>"]
  by simp

end
